theory Spec2Isabelle
  imports Complex_Main "HOL-Library.Multiset" "HOL-Library.Sublist"
begin

section \<open>Data model of \<open>src/components/Timeline.js\<close>\<close>

text \<open>
  Modelling conventions.
  \<^item> A JavaScript \<open>Date\<close> object is its time value: \<open>Some t\<close> with \<open>t\<close> the
    milliseconds since the epoch, or \<open>None\<close> for an Invalid Date (time value \<open>NaN\<close>).
    A date built from a number, from local calendar fields or by a setter is clipped to
    the range of ECMAScript dates (\<open>timeClip\<close>).
  \<^item> The \<open>start\<close> and \<open>end\<close> fields of an item are only ever read through
    \<open>new Date(field)\<close>, so a field value is represented by what that constructor
    yields: \<open>DateStr t\<close> is a value parsed to the time value \<open>t\<close> (so \<open>t\<close> lies
    within the range of dates), \<open>BadDate\<close> a missing or unparseable one. The
    calendar-day string \<open>YYYY-MM-DD\<close> of day number \<open>k\<close> (days since 1970-01-01)
    is parsed as UTC midnight, \<open>DateStr (k * msPerDay)\<close>.
  \<^item> The host time zone is a parameter (\<open>timezone\<close>): the getters and setters
    of calendar fields and the constructor from calendar fields work on local time, so
    \<open>d.setDate(d.getDate() + n)\<close> moves a date by \<open>n\<close> days of the local
    calendar, which is \<open>n * msPerDay\<close> only when the offset from UTC is the same
    before and after.
  \<^item> Other JavaScript numbers are exact reals (pixels, zoom) or integers (day
    counts), with \<open>None\<close> for \<open>NaN\<close>; floating-point rounding is not modelled.
  \<^item> An array of items holds objects; the array itself may be \<open>null\<close> or
    \<open>undefined\<close> (\<open>None\<close>) where the source tests for it.
\<close>

datatype jserror = TypeError | RangeError

datatype datestr = DateStr int | BadDate

type_synonym jsdate = "int option"

datatype item_id = NumId int | StrId string

record item =
  id' :: item_id
  name :: string
  start :: datestr
  end' :: datestr
  color :: "string option"

definition msPerDay :: int where
  "msPerDay = 1000 * 60 * 60 * 24"

text \<open>\<open>new Date(v)\<close> for a field value \<open>v\<close>.\<close>

fun newDate :: "datestr \<Rightarrow> jsdate" where
  "newDate (DateStr t) = Some t"
| "newDate BadDate = None"

text \<open>\<open>a < b\<close> on two dates: both are converted to numbers, and any comparison
  with \<open>NaN\<close> is false.\<close>

fun dateLt :: "jsdate \<Rightarrow> jsdate \<Rightarrow> bool" where
  "dateLt (Some a) (Some b) = (a < b)"
| "dateLt _ _ = False"

text \<open>\<open>a - b\<close> on two dates: the difference of the time values, \<open>NaN\<close> when
  either is invalid.\<close>

fun dateSub :: "jsdate \<Rightarrow> jsdate \<Rightarrow> int option" where
  "dateSub (Some a) (Some b) = Some (a - b)"
| "dateSub _ _ = None"

section \<open>Lane assignment\<close>

text \<open>The comparator \<open>(a, b) => new Date(a.start) - new Date(b.start)\<close>.\<close>

definition compareStart :: "item \<Rightarrow> item \<Rightarrow> int option" where
  "compareStart a b = dateSub (newDate (start a)) (newDate (start b))"

text \<open>\<open>Array.prototype.sort\<close> treats a comparator result \<open>v\<close> as "first argument
  goes after the second" exactly when \<open>v > 0\<close>; \<open>NaN\<close> counts as \<open>+0\<close>.\<close>

fun cmpPositive :: "int option \<Rightarrow> bool" where
  "cmpPositive (Some v) = (0 < v)"
| "cmpPositive None = False"

text \<open>
  \<open>[...items].sort(cmp)\<close> is modelled as a stable insertion sort driven by the
  comparator: elements are taken left to right and each is put behind all elements it
  does not have to precede. The sort is stable by the language standard, so when the
  comparator is a consistent order (all start dates valid) every implementation
  returns this list; with an invalid start date the order is implementation-defined
  and this is one admissible outcome.
\<close>

fun insertItem :: "item \<Rightarrow> item list \<Rightarrow> item list" where
  "insertItem x [] = [x]"
| "insertItem x (y # ys) =
     (if cmpPositive (compareStart y x) then x # y # ys else y # insertItem x ys)"

definition sortItems :: "item list \<Rightarrow> item list" where
  "sortItems xs = foldl (\<lambda>acc x. insertItem x acc) [] xs"

text \<open>
  \<open>assignItemToLane\<close>: the lanes are scanned in order; the item is pushed onto the
  first lane whose last element ends strictly before the item starts, else a new lane
  \<open>[item]\<close> is pushed. Reading \<open>lane[lane.length - 1].end\<close> of an empty lane would
  raise a \<open>TypeError\<close>; the model keeps that branch.
\<close>

fun assignItemToLane :: "item list list \<Rightarrow> item \<Rightarrow> jserror + item list list" where
  "assignItemToLane [] x = Inr [[x]]"
| "assignItemToLane (lane # lanes) x =
     (if lane = [] then Inl TypeError
      else if dateLt (newDate (end' (last lane))) (newDate (start x))
      then Inr ((lane @ [x]) # lanes)
      else (case assignItemToLane lanes x of
              Inl e \<Rightarrow> Inl e
            | Inr lanes' \<Rightarrow> Inr (lane # lanes')))"

text \<open>The loop \<open>for (const item of sortedItems) assignItemToLane(item)\<close>, with the
  local variable \<open>lanes\<close> passed along.\<close>

fun assignAll :: "item list list \<Rightarrow> item list \<Rightarrow> jserror + item list list" where
  "assignAll lanes [] = Inr lanes"
| "assignAll lanes (x # xs) =
     (case assignItemToLane lanes x of
        Inl e \<Rightarrow> Inl e
      | Inr lanes' \<Rightarrow> assignAll lanes' xs)"

definition assignLanesToItems :: "item list option \<Rightarrow> jserror + item list list" where
  "assignLanesToItems items =
     (case items of
        None \<Rightarrow> Inr []
      | Some xs \<Rightarrow> if xs = [] then Inr [] else assignAll [] (sortItems xs))"

section \<open>Time zones and the range of dates\<close>

text \<open>
  The host's time zone, as ECMAScript sees it. \<open>utcOffset tz u\<close> is the offset of
  local time from UTC, in milliseconds, at the instant \<open>u\<close>
  (\<open>LocalTZA(u, true)\<close>); \<open>localOffset tz l\<close> is the offset that belongs to the
  local time value \<open>l\<close> (\<open>LocalTZA(l, false)\<close>). For a local time that a
  transition skips or repeats, the standard takes the offset in force before the
  transition.
\<close>

record timezone =
  utcOffset :: "int \<Rightarrow> int"
  localOffset :: "int \<Rightarrow> int"

definition localTime :: "timezone \<Rightarrow> int \<Rightarrow> int" where
  "localTime tz u = u + utcOffset tz u"

definition utcOfLocal :: "timezone \<Rightarrow> int \<Rightarrow> int" where
  "utcOfLocal tz l = l - localOffset tz l"

text \<open>\<open>TimeClip\<close>: a time value further than 8.64e15 ms from the epoch is \<open>NaN\<close>.\<close>

definition maxTime :: int where
  "maxTime = 8640000000000000"

definition timeClip :: "int \<Rightarrow> jsdate" where
  "timeClip t = (if \<bar>t\<bar> \<le> maxTime then Some t else None)"

text \<open>\<open>new Date(v)\<close> for a number \<open>v\<close>.\<close>

definition newDateNum :: "int option \<Rightarrow> jsdate" where
  "newDateNum v = (case v of None \<Rightarrow> None | Some t \<Rightarrow> timeClip t)"

text \<open>
  \<open>d.setDate(d.getDate() + n)\<close>. \<open>getDate\<close> reads the day of the month of the
  local time of \<open>d\<close>; \<open>setDate\<close> rebuilds the local time from the local year and
  month, the new day and the local time within the day, which moves the local time by
  \<open>n\<close> whole days, takes it back to UTC and clips it. An Invalid Date stays
  invalid.
\<close>

definition setDateOffset :: "timezone \<Rightarrow> jsdate \<Rightarrow> int \<Rightarrow> jsdate" where
  "setDateOffset tz d n =
     (case d of
        None \<Rightarrow> None
      | Some t \<Rightarrow> timeClip (utcOfLocal tz (localTime tz t + n * msPerDay)))"

text \<open>A host whose offset from UTC never changes, UTC itself, and the rules of 2024
  for Europe/Berlin (UTC+1, and UTC+2 from 2024-03-31T01:00Z to 2024-10-27T01:00Z) and
  America/New_York (UTC-5, and UTC-4 from 2024-03-10T07:00Z to 2024-11-03T06:00Z),
  meant for dates of that year.\<close>

definition fixedZone :: "int \<Rightarrow> timezone" where
  "fixedZone c = \<lparr>utcOffset = (\<lambda>u. c), localOffset = (\<lambda>l. c)\<rparr>"

definition utcZone :: timezone where
  "utcZone = fixedZone 0"

definition msPerHour :: int where
  "msPerHour = 1000 * 60 * 60"

definition summerZone :: "int \<Rightarrow> int \<Rightarrow> int \<Rightarrow> int \<Rightarrow> timezone" where
  "summerZone std dst t1 t2 =
     \<lparr>utcOffset = (\<lambda>u. if t1 \<le> u \<and> u < t2 then dst else std),
      localOffset = (\<lambda>l. if t1 + dst \<le> l \<and> l < t2 + dst then dst else std)\<rparr>"

definition berlin2024 :: timezone where
  "berlin2024 =
     summerZone msPerHour (2 * msPerHour)
       (19813 * msPerDay + msPerHour) (20023 * msPerDay + msPerHour)"

definition newYork2024 :: timezone where
  "newYork2024 =
     summerZone (- 5 * msPerHour) (- 4 * msPerHour)
       (19792 * msPerDay + 7 * msPerHour) (20030 * msPerDay + 6 * msPerHour)"

section \<open>Visible date range\<close>

record dateRange =
  minDate :: jsdate
  maxDate :: jsdate

text \<open>
  The fallback window. \<open>today = new Date()\<close> is the current instant \<open>now\<close>;
  \<open>new Date(today.getFullYear(), today.getMonth(), today.getDate() + 30)\<close> is local
  midnight of the calendar day 30 days after today's local calendar day, taken back to
  UTC with the offset that belongs to that local time.
\<close>

definition localDay :: "timezone \<Rightarrow> int \<Rightarrow> int" where
  "localDay tz u = localTime tz u div msPerDay"

definition defaultRange :: "int \<Rightarrow> timezone \<Rightarrow> dateRange" where
  "defaultRange now tz =
     \<lparr>minDate = Some now,
      maxDate = timeClip (utcOfLocal tz ((localDay tz now + 30) * msPerDay))\<rparr>"

text \<open>\<open>Math.min(...ts)\<close> and \<open>Math.max(...ts)\<close>: \<open>NaN\<close> as soon as one argument
  is \<open>NaN\<close>. With no argument they are \<open>\<plusminus>Infinity\<close>; the source only calls
  them on a non-empty array and only feeds the result to \<open>new Date\<close>, which makes an
  Invalid Date of an infinity as of \<open>NaN\<close>, hence \<open>None\<close> there.\<close>

fun mathMin :: "int option list \<Rightarrow> int option" where
  "mathMin [] = None"
| "mathMin [x] = x"
| "mathMin (x # xs) =
     (case (x, mathMin xs) of (Some a, Some b) \<Rightarrow> Some (min a b) | _ \<Rightarrow> None)"

fun mathMax :: "int option list \<Rightarrow> int option" where
  "mathMax [] = None"
| "mathMax [x] = x"
| "mathMax (x # xs) =
     (case (x, mathMax xs) of (Some a, Some b) \<Rightarrow> Some (max a b) | _ \<Rightarrow> None)"

text \<open>
  The \<open>try\<close> block of \<open>calculateDateRange\<close>. An unparseable date throws
  nothing: \<open>getTime()\<close> returns \<open>NaN\<close>, and \<open>Math.min\<close>, \<open>new Date(NaN)\<close>
  and \<open>setDate\<close> pass it on. What can throw is the spread call
  \<open>Math.min(...array)\<close>: an engine accepts only so many arguments (\<open>argLimit\<close>,
  some tens or hundreds of thousands, depending on the engine) and throws a
  \<open>RangeError\<close> beyond. The theorems below that run the block on a single item
  take any limit \<open>Suc k\<close>, that is, of at least one argument.
\<close>

definition tryDateRange :: "timezone \<Rightarrow> nat \<Rightarrow> item list \<Rightarrow> jserror + dateRange" where
  "tryDateRange tz argLimit xs =
     (if argLimit < length xs then Inl RangeError
      else
        let minD = newDateNum (mathMin (map (\<lambda>i. newDate (start i)) xs));
            maxD = newDateNum (mathMax (map (\<lambda>i. newDate (end' i)) xs))
        in Inr \<lparr>minDate = setDateOffset tz minD (- 7), maxDate = setDateOffset tz maxD 7\<rparr>)"

definition calculateDateRange ::
  "int \<Rightarrow> timezone \<Rightarrow> nat \<Rightarrow> item list option \<Rightarrow> dateRange" where
  "calculateDateRange now tz argLimit its =
     (case its of
        None \<Rightarrow> defaultRange now tz
      | Some xs \<Rightarrow>
          if xs = [] then defaultRange now tz
          else (case tryDateRange tz argLimit xs of
                  Inl e \<Rightarrow> defaultRange now tz
                | Inr r \<Rightarrow> r))"

section \<open>Item geometry\<close>

text \<open>The style object; \<open>left\<close> and \<open>width\<close> are the numbers in front of the
  \<open>px\<close> suffix.\<close>

record itemStyle =
  left :: "real option"
  width :: "real option"
  backgroundColor :: string

text \<open>\<open>Math.floor(ms / (1000 * 60 * 60 * 24))\<close> and \<open>Math.ceil\<close> of the same
  quotient.\<close>

definition floorDays :: "int option \<Rightarrow> int option" where
  "floorDays ms = map_option (\<lambda>d. d div msPerDay) ms"

definition ceilDays :: "int option \<Rightarrow> int option" where
  "ceilDays ms = map_option (\<lambda>d. - ((- d) div msPerDay)) ms"

text \<open>\<open>item.color || '#4287f5'\<close>: a missing or empty colour is falsy.\<close>

definition colorOrDefault :: "string option \<Rightarrow> string" where
  "colorOrDefault c = (case c of None \<Rightarrow> ''#4287f5'' | Some s \<Rightarrow> if s = [] then ''#4287f5'' else s)"

text \<open>The \<open>try\<close> block of \<open>getItemStyle\<close>, for the origin \<open>minDate\<close> and the zoom
  level \<open>zoomLevel\<close> of the component.\<close>

definition tryItemStyle :: "jsdate \<Rightarrow> real \<Rightarrow> item \<Rightarrow> jserror + itemStyle" where
  "tryItemStyle minD zoom i =
     (let startDays = floorDays (dateSub (newDate (start i)) minD);
          endDays = ceilDays (dateSub (newDate (end' i)) minD);
          itemWidth =
            (case (endDays, startDays) of
               (Some e, Some s) \<Rightarrow> Some (max (of_int (e - s) * 24 * zoom) 80)
             | _ \<Rightarrow> None)
      in Inr \<lparr>left = map_option (\<lambda>s. of_int s * 24 * zoom) startDays,
              width = itemWidth,
              backgroundColor = colorOrDefault (color i)\<rparr>)"

definition getItemStyle :: "jsdate \<Rightarrow> real \<Rightarrow> item \<Rightarrow> itemStyle" where
  "getItemStyle minD zoom i =
     (case tryItemStyle minD zoom i of
        Inl e \<Rightarrow> \<lparr>left = Some 0, width = Some 80, backgroundColor = ''#4287f5''\<rparr>
      | Inr s \<Rightarrow> s)"

section \<open>Zoom and drag\<close>

datatype dragmode = DragStart | DragEnd | DragMove

text \<open>The part of the component state that zooming and dragging read and write.\<close>

record timeline =
  items :: "item list"
  zoomLevel :: real
  draggingItem :: "item option"
  dragType :: "dragmode option"
  dragStartX :: real

definition handleZoom :: "bool \<Rightarrow> timeline \<Rightarrow> timeline" where
  "handleZoom zoomIn s =
     (let prevZoom = zoomLevel s;
          newZoom = (if zoomIn then prevZoom * 1.2 else prevZoom / 1.2)
      in s\<lparr>zoomLevel := max 0.5 (min 5 newZoom)\<rparr>)"

definition startDrag :: "real \<Rightarrow> item \<Rightarrow> dragmode \<Rightarrow> timeline \<Rightarrow> timeline" where
  "startDrag clientX i ty s =
     s\<lparr>draggingItem := Some i, dragType := Some ty, dragStartX := clientX\<rparr>"

definition endDrag :: "timeline \<Rightarrow> timeline" where
  "endDrag s = s\<lparr>draggingItem := None, dragType := None\<rparr>"

text \<open>\<open>Math.round(deltaX / (24 * zoomLevel))\<close>; \<open>Math.round\<close> is
  \<open>floor (x + 1/2)\<close>, which is \<^const>\<open>round\<close>. The zoom level starts at 1 and
  \<open>handleZoom\<close> keeps it within \<open>[0.5, 5]\<close>, so the divisor is not zero.\<close>

definition daysDelta :: "real \<Rightarrow> real \<Rightarrow> int" where
  "daysDelta deltaX zoom = round (deltaX / (24 * zoom))"

text \<open>\<open>d.toISOString().split('T')[0]\<close>: the UTC calendar day of the date as a
  \<open>YYYY-MM-DD\<close> string; \<open>toISOString\<close> throws a \<open>RangeError\<close> on an Invalid
  Date.\<close>

definition toISODate :: "jsdate \<Rightarrow> jserror + datestr" where
  "toISODate d =
     (case d of
        None \<Rightarrow> Inl RangeError
      | Some t \<Rightarrow> Inr (DateStr ((t div msPerDay) * msPerDay)))"

text \<open>The callback that \<open>handleDrag\<close> maps over the previous items, on a host
  in the time zone \<open>tz\<close>.\<close>

definition dragItem ::
  "timezone \<Rightarrow> item \<Rightarrow> dragmode option \<Rightarrow> int \<Rightarrow> item \<Rightarrow> jserror + item" where
  "dragItem tz dragging ty n i =
     (if id' i \<noteq> id' dragging then Inr i
      else
        let start0 = newDate (start i); end0 = newDate (end' i) in
        (case ty of
           Some DragStart \<Rightarrow>
             (let start1 = setDateOffset tz start0 n in
              if dateLt start1 end0
              then (case toISODate start1 of
                      Inl e \<Rightarrow> Inl e
                    | Inr v \<Rightarrow> Inr (i\<lparr>start := v\<rparr>))
              else Inr i)
         | Some DragEnd \<Rightarrow>
             (let end1 = setDateOffset tz end0 n in
              if dateLt start0 end1
              then (case toISODate end1 of
                      Inl e \<Rightarrow> Inl e
                    | Inr v \<Rightarrow> Inr (i\<lparr>end' := v\<rparr>))
              else Inr i)
         | Some DragMove \<Rightarrow>
             (let start1 = setDateOffset tz start0 n; end1 = setDateOffset tz end0 n in
              case toISODate start1 of
                Inl e \<Rightarrow> Inl e
              | Inr v \<Rightarrow>
                  (case toISODate end1 of
                     Inl e \<Rightarrow> Inl e
                   | Inr w \<Rightarrow> Inr (i\<lparr>start := v, end' := w\<rparr>)))
         | None \<Rightarrow> Inr i))"

text \<open>\<open>prevItems.map(f)\<close> for a callback that may throw.\<close>

fun mapItems :: "(item \<Rightarrow> jserror + item) \<Rightarrow> item list \<Rightarrow> jserror + item list" where
  "mapItems f [] = Inr []"
| "mapItems f (x # xs) =
     (case f x of
        Inl e \<Rightarrow> Inl e
      | Inr y \<Rightarrow> (case mapItems f xs of Inl e \<Rightarrow> Inl e | Inr ys \<Rightarrow> Inr (y # ys)))"

text \<open>
  \<open>handleDrag\<close> for a pointer at \<open>clientX\<close>. It asks for two state updates
  that do not depend on each other: \<open>setDragStartX(e.clientX)\<close>, and
  \<open>setItems\<close> with an updater that React runs later on the previous items. The
  result holds the value of \<open>dragStartX\<close> after the event and the outcome of
  the updater, \<open>Inl\<close> when it throws; where \<open>handleDrag\<close> returns before the
  setters, both are the previous values.
\<close>

record dragUpdates =
  nextDragStartX :: real
  nextItems :: "jserror + item list"

definition handleDrag :: "timezone \<Rightarrow> timeline \<Rightarrow> real \<Rightarrow> dragUpdates" where
  "handleDrag tz s clientX =
     (case draggingItem s of
        None \<Rightarrow> \<lparr>nextDragStartX = dragStartX s, nextItems = Inr (items s)\<rparr>
      | Some dragging \<Rightarrow>
          let deltaX = clientX - dragStartX s;
              n = daysDelta deltaX (zoomLevel s)
          in if n = 0 then \<lparr>nextDragStartX = dragStartX s, nextItems = Inr (items s)\<rparr>
             else \<lparr>nextDragStartX = clientX,
                   nextItems = mapItems (dragItem tz dragging (dragType s) n) (items s)\<rparr>)"

section \<open>Vocabulary of the lane-assignment properties\<close>

text \<open>The time values of an item's dates; they are meant for items whose dates are
  valid (\<open>validItem\<close>), and read \<open>0\<close> from an invalid one.\<close>

definition startTime :: "item \<Rightarrow> int" where
  "startTime i = (case newDate (start i) of Some t \<Rightarrow> t | None \<Rightarrow> 0)"

definition endTime :: "item \<Rightarrow> int" where
  "endTime i = (case newDate (end' i) of Some t \<Rightarrow> t | None \<Rightarrow> 0)"

definition validItem :: "item \<Rightarrow> bool" where
  "validItem i = (newDate (start i) \<noteq> None \<and> newDate (end' i) \<noteq> None)"

text \<open>An item with valid dates whose start is not after its end.\<close>

definition wellFormed :: "item \<Rightarrow> bool" where
  "wellFormed i = (validItem i \<and> startTime i \<le> endTime i)"

text \<open>The closed interval \<open>[start, end]\<close> of an item contains the instant \<open>t\<close>.\<close>

definition covers :: "item \<Rightarrow> int \<Rightarrow> bool" where
  "covers i t =
     (case (newDate (start i), newDate (end' i)) of
        (Some s, Some e) \<Rightarrow> s \<le> t \<and> t \<le> e
      | _ \<Rightarrow> False)"

text \<open>How many items of a sequence are running at the instant \<open>t\<close>.\<close>

definition overlapCount :: "int \<Rightarrow> item list \<Rightarrow> nat" where
  "overlapCount t xs = length (filter (\<lambda>i. covers i t) xs)"

text \<open>The largest number of items running at one instant. Every maximal group of
  items that share an instant also shares the latest start among them, so the start
  instants of the items are enough to look at (lemmas \<open>overlapCount_le_maxOverlap\<close>
  and \<open>maxOverlap_attained\<close> below).\<close>

definition maxOverlap :: "item list \<Rightarrow> nat" where
  "maxOverlap xs = foldr max (map (\<lambda>i. overlapCount (startTime i) xs) xs) 0"

text \<open>Two items are in conflict when neither passes the placement test
  \<open>end < start\<close> against the other; a clique is a selection of items from the
  sequence that are pairwise in conflict.\<close>

definition conflict :: "item \<Rightarrow> item \<Rightarrow> bool" where
  "conflict a b = (\<not> endTime a < startTime b \<and> \<not> endTime b < startTime a)"

definition isClique :: "item list \<Rightarrow> item list \<Rightarrow> bool" where
  "isClique xs ys = (subseq ys xs \<and> sorted_wrt conflict ys)"

text \<open>A lane as the loop builds it: not empty, every item ends before all later ones
  start. The loop invariant adds an instant at which every lane is busy.\<close>

definition laneChain :: "item list \<Rightarrow> bool" where
  "laneChain lane =
     (lane \<noteq> [] \<and> sorted_wrt (\<lambda>a b. endTime a < startTime b) lane \<and>
      (\<forall>i\<in>set lane. wellFormed i))"

definition lanesInv :: "item list list \<Rightarrow> bool" where
  "lanesInv lanes =
     ((\<forall>lane\<in>set lanes. laneChain lane) \<and>
      (\<exists>t. \<forall>lane\<in>set lanes. \<exists>i\<in>set lane. covers i t))"

section \<open>Calendar days and sample items\<close>

text \<open>The field value \<open>YYYY-MM-DD\<close> of the day with number \<open>k\<close>, counted from
  1970-01-01; 2024-01-01 is day 19723.\<close>

definition isoDay :: "int \<Rightarrow> datestr" where
  "isoDay k = DateStr (k * msPerDay)"

definition mkItem :: "int \<Rightarrow> string \<Rightarrow> datestr \<Rightarrow> datestr \<Rightarrow> item" where
  "mkItem n nm s e = \<lparr>id' = NumId n, name = nm, start = s, end' = e, color = None\<rparr>"

text \<open>The items A, B and C of the first example scenario.\<close>

definition itemA :: item where
  "itemA = mkItem 1 ''A'' (isoDay 19723) (isoDay 19727)"

definition itemB :: item where
  "itemB = mkItem 2 ''B'' (isoDay 19725) (isoDay 19729)"

definition itemC :: item where
  "itemC = mkItem 3 ''C'' (isoDay 19728) (isoDay 19732)"

text \<open>An item from 2024-01-05 to 2024-01-20, an item whose end (2024-01-01) lies
  before its start (2024-01-10), and an item with an unparseable start.\<close>

definition itemLong :: item where
  "itemLong = mkItem 4 ''L'' (isoDay 19727) (isoDay 19742)"

definition itemInverted :: item where
  "itemInverted = mkItem 5 ''X'' (isoDay 19732) (isoDay 19723)"

definition itemBad :: item where
  "itemBad = mkItem 6 ''bad'' BadDate (isoDay 19727)"

text \<open>An item from 2024-03-31 to 2024-04-01, an item from 2024-03-12 to 2024-03-15
  and an item from 2024-11-05 to 2024-11-08.\<close>

definition itemSpring :: item where
  "itemSpring = mkItem 7 ''S'' (isoDay 19813) (isoDay 19814)"

definition itemMarch :: item where
  "itemMarch = mkItem 8 ''M'' (isoDay 19794) (isoDay 19797)"

definition itemNovember :: item where
  "itemNovember = mkItem 9 ''N'' (isoDay 20032) (isoDay 20035)"

text \<open>Component states in the middle of a drag at zoom level 1: item A being moved
  with the reference position at pixel 100, the item with the unparseable start being
  moved with the reference position at pixel 0, and the end handle of the item from
  2024-03-31 to 2024-04-01 being dragged with the reference position at pixel 24.\<close>

definition dragStateA :: timeline where
  "dragStateA =
     \<lparr>items = [itemA, itemB], zoomLevel = 1, draggingItem = Some itemA,
      dragType = Some DragMove, dragStartX = 100\<rparr>"

definition dragStateBad :: timeline where
  "dragStateBad =
     \<lparr>items = [itemBad], zoomLevel = 1, draggingItem = Some itemBad,
      dragType = Some DragMove, dragStartX = 0\<rparr>"

definition dragStateSpring :: timeline where
  "dragStateSpring =
     \<lparr>items = [itemSpring], zoomLevel = 1, draggingItem = Some itemSpring,
      dragType = Some DragEnd, dragStartX = 24\<rparr>"

section \<open>Lane assignment: sorting and the loop invariant\<close>

lemma dateLt_valid:
  "validItem a \<Longrightarrow> validItem b \<Longrightarrow>
   dateLt (newDate (end' a)) (newDate (start b)) = (endTime a < startTime b)"
  by (auto simp: validItem_def endTime_def startTime_def)

lemma cmpPositive_valid:
  "validItem a \<Longrightarrow> validItem b \<Longrightarrow>
   cmpPositive (compareStart a b) = (startTime b < startTime a)"
  by (auto simp: validItem_def compareStart_def startTime_def)

lemma covers_valid:
  "validItem i \<Longrightarrow> covers i t = (startTime i \<le> t \<and> t \<le> endTime i)"
  by (auto simp: validItem_def covers_def startTime_def endTime_def)

lemma mset_insertItem: "mset (insertItem x ys) = add_mset x (mset ys)"
  by (induction ys) auto

lemma mset_foldl_insertItem:
  "mset (foldl (\<lambda>acc x. insertItem x acc) acc xs) = mset acc + mset xs"
  by (induction xs arbitrary: acc) (auto simp: mset_insertItem)

lemma mset_sortItems: "mset (sortItems xs) = mset xs"
  by (simp add: sortItems_def mset_foldl_insertItem)

lemma set_insertItem: "set (insertItem x ys) = insert x (set ys)"
  by (metis mset_insertItem set_mset_add_mset_insert set_mset_mset)

lemma sorted_insertItem:
  "validItem x \<Longrightarrow> \<forall>y\<in>set ys. validItem y \<Longrightarrow> sorted (map startTime ys) \<Longrightarrow>
   sorted (map startTime (insertItem x ys))"
proof (induction ys)
  case Nil
  then show ?case by simp
next
  case (Cons y ys)
  then show ?case
    by (auto simp: cmpPositive_valid set_insertItem)
qed

lemma sorted_foldl_insertItem:
  "\<forall>y\<in>set acc. validItem y \<Longrightarrow> \<forall>x\<in>set xs. validItem x \<Longrightarrow>
   sorted (map startTime acc) \<Longrightarrow>
   sorted (map startTime (foldl (\<lambda>acc x. insertItem x acc) acc xs))"
proof (induction xs arbitrary: acc)
  case Nil
  then show ?case by simp
next
  case (Cons x xs)
  show ?case
    using Cons.prems
    by (auto intro!: Cons.IH sorted_insertItem simp: set_insertItem)
qed

lemma sorted_sortItems:
  "\<forall>x\<in>set xs. validItem x \<Longrightarrow> sorted (map startTime (sortItems xs))"
  by (simp add: sortItems_def sorted_foldl_insertItem)


lemma laneChain_single: "wellFormed x \<Longrightarrow> laneChain [x]"
  by (simp add: laneChain_def)

lemma laneChain_snoc:
  assumes "laneChain lane" and "wellFormed x" and "endTime (last lane) < startTime x"
  shows "laneChain (lane @ [x])"
proof -
  have ne: "lane \<noteq> []" and sw: "sorted_wrt (\<lambda>a b. endTime a < startTime b) lane"
    and wf: "\<forall>i\<in>set lane. wellFormed i"
    using assms(1) by (simp_all add: laneChain_def)
  have "endTime a < startTime x" if "a \<in> set lane" for a
  proof (cases "a = last lane")
    case True
    then show ?thesis using assms(3) by simp
  next
    case False
    have "set lane = set (butlast lane) \<union> {last lane}"
      using ne by (metis append_butlast_last_id set_append list.set(1) list.set(2))
    with that False have "a \<in> set (butlast lane)" by simp
    moreover have "sorted_wrt (\<lambda>a b. endTime a < startTime b) (butlast lane @ [last lane])"
      using sw ne by simp
    ultimately have "endTime a < startTime (last lane)"
      by (simp add: sorted_wrt_append)
    moreover have "startTime (last lane) \<le> endTime (last lane)"
      using wf ne by (simp add: wellFormed_def)
    ultimately show ?thesis using assms(3) by linarith
  qed
  then show ?thesis
    using ne sw wf assms(2) by (simp add: laneChain_def sorted_wrt_append)
qed

lemma assignItemToLane_cases:
  assumes "\<forall>lane\<in>set lanes. lane \<noteq> [] \<and> validItem (last lane)" and "validItem x"
  shows "(\<exists>pre lane post. lanes = pre @ lane # post \<and>
            assignItemToLane lanes x = Inr (pre @ (lane @ [x]) # post) \<and>
            lane \<noteq> [] \<and> endTime (last lane) < startTime x) \<or>
         (assignItemToLane lanes x = Inr (lanes @ [[x]]) \<and>
            (\<forall>lane\<in>set lanes. \<not> endTime (last lane) < startTime x))"
  using assms(1)
proof (induction lanes)
  case Nil
  then show ?case by simp
next
  case (Cons l ls)
  have ne: "l \<noteq> []" and vl: "validItem (last l)" using Cons.prems by simp_all
  show ?case
  proof (cases "endTime (last l) < startTime x")
    case True
    then have "assignItemToLane (l # ls) x = Inr ([] @ (l @ [x]) # ls)"
      using ne vl assms(2) by (simp add: dateLt_valid)
    then show ?thesis using True ne by (metis append_Nil)
  next
    case False
    have lt: "\<not> dateLt (newDate (end' (last l))) (newDate (start x))"
      using False vl assms(2) by (simp add: dateLt_valid)
    from Cons.IH Cons.prems
    consider (placed) pre lane post where "ls = pre @ lane # post"
        "assignItemToLane ls x = Inr (pre @ (lane @ [x]) # post)"
        "lane \<noteq> []" "endTime (last lane) < startTime x"
      | (fresh) "assignItemToLane ls x = Inr (ls @ [[x]])"
        "\<forall>lane\<in>set ls. \<not> endTime (last lane) < startTime x"
      by auto
    then show ?thesis
    proof cases
      case placed
      have "l # ls = (l # pre) @ lane # post" using placed(1) by simp
      moreover have "assignItemToLane (l # ls) x = Inr ((l # pre) @ (lane @ [x]) # post)"
        using ne lt placed(2) by simp
      ultimately show ?thesis using placed(3,4) by blast
    next
      case fresh
      have "assignItemToLane (l # ls) x = Inr ((l # ls) @ [[x]])"
        using ne lt fresh(1) by simp
      then show ?thesis using fresh(2) False by simp
    qed
  qed
qed


lemma overlapCount_append: "overlapCount t (xs @ ys) = overlapCount t xs + overlapCount t ys"
  by (simp add: overlapCount_def)

lemma overlapCount_concat: "overlapCount t (concat ls) = sum_list (map (overlapCount t) ls)"
  by (induction ls) (simp_all add: overlapCount_def)

lemma overlapCount_mset: "mset xs = mset ys \<Longrightarrow> overlapCount t xs = overlapCount t ys"
  unfolding overlapCount_def by (metis mset_filter size_mset)

lemma overlapCount_chain:
  assumes "laneChain lane"
  shows "overlapCount t lane \<le> 1"
proof -
  have "sorted_wrt (\<lambda>a b. endTime a < startTime b) xs \<Longrightarrow> \<forall>i\<in>set xs. wellFormed i \<Longrightarrow>
        overlapCount t xs \<le> 1" for xs
  proof (induction xs)
    case Nil
    then show ?case by (simp add: overlapCount_def)
  next
    case (Cons a xs)
    show ?case
    proof (cases "covers a t")
      case True
      have "\<not> covers b t" if "b \<in> set xs" for b
        using that True Cons.prems by (auto simp: covers_valid wellFormed_def)
      then have "filter (\<lambda>i. covers i t) xs = []" by (simp add: filter_empty_conv)
      then show ?thesis using True by (simp add: overlapCount_def)
    next
      case False
      then show ?thesis using Cons by (simp add: overlapCount_def)
    qed
  qed
  from this [of lane] show ?thesis using assms by (simp add: laneChain_def)
qed

lemma overlapCount_upper:
  "\<forall>lane\<in>set lanes. laneChain lane \<Longrightarrow> overlapCount t (concat lanes) \<le> length lanes"
proof (induction lanes)
  case Nil
  then show ?case by (simp add: overlapCount_def)
next
  case (Cons l ls)
  then show ?case
    using overlapCount_chain [of l t] by (simp add: overlapCount_append)
qed

lemma overlapCount_lower:
  "\<forall>lane\<in>set lanes. \<exists>i\<in>set lane. covers i t \<Longrightarrow> length lanes \<le> overlapCount t (concat lanes)"
proof (induction lanes)
  case Nil
  then show ?case by simp
next
  case (Cons l ls)
  have "filter (\<lambda>i. covers i t) l \<noteq> []"
    using Cons.prems by (auto simp: filter_empty_conv)
  then have "1 \<le> overlapCount t l"
    by (simp add: overlapCount_def Suc_leI)
  then show ?case using Cons by (simp add: overlapCount_append)
qed

lemma lanesInv_Nil: "lanesInv []"
  by (simp add: lanesInv_def)

lemma assignItemToLane_inv:
  assumes inv: "lanesInv lanes" and wf: "wellFormed x"
    and le: "\<forall>a\<in>set (concat lanes). startTime a \<le> startTime x"
  shows "\<exists>lanes'. assignItemToLane lanes x = Inr lanes' \<and> lanesInv lanes' \<and>
           mset (concat lanes') = add_mset x (mset (concat lanes)) \<and>
           (map hd lanes' = map hd lanes \<or> map hd lanes' = map hd lanes @ [x])"
proof -
  have chains: "\<forall>lane\<in>set lanes. laneChain lane" using inv by (simp add: lanesInv_def)
  obtain t where t: "\<forall>lane\<in>set lanes. \<exists>i\<in>set lane. covers i t"
    using inv by (auto simp: lanesInv_def)
  have vx: "validItem x" using wf by (simp add: wellFormed_def)
  have "\<forall>lane\<in>set lanes. lane \<noteq> [] \<and> validItem (last lane)"
    using chains by (auto simp: laneChain_def wellFormed_def)
  from assignItemToLane_cases [OF this vx]
  consider (placed) pre lane post where "lanes = pre @ lane # post"
      "assignItemToLane lanes x = Inr (pre @ (lane @ [x]) # post)"
      "lane \<noteq> []" "endTime (last lane) < startTime x"
    | (fresh) "assignItemToLane lanes x = Inr (lanes @ [[x]])"
      "\<forall>lane\<in>set lanes. \<not> endTime (last lane) < startTime x"
    by blast
  then show ?thesis
  proof cases
    case placed
    let ?ls = "pre @ (lane @ [x]) # post"
    have "laneChain lane" using chains placed(1) by simp
    then have "laneChain (lane @ [x])" using wf placed(4) by (rule laneChain_snoc)
    then have c: "\<forall>l\<in>set ?ls. laneChain l" using chains placed(1) by auto
    have w: "\<forall>l\<in>set ?ls. \<exists>i\<in>set l. covers i t" using t placed(1) by auto
    have "lanesInv ?ls" using c w by (auto simp: lanesInv_def)
    moreover have "mset (concat ?ls) = add_mset x (mset (concat lanes))"
      using placed(1) by simp
    moreover have "map hd ?ls = map hd lanes" using placed(1,3) by simp
    ultimately show ?thesis using placed(2) by blast
  next
    case fresh
    let ?ls = "lanes @ [[x]]"
    have c: "\<forall>l\<in>set ?ls. laneChain l" using chains wf by (auto simp: laneChain_single)
    have "\<exists>i\<in>set l. covers i (startTime x)" if "l \<in> set ?ls" for l
    proof (cases "l = [x]")
      case True
      then show ?thesis using wf by (simp add: covers_valid wellFormed_def)
    next
      case False
      then have l: "l \<in> set lanes" using that by simp
      then have ne: "l \<noteq> []" and wl: "wellFormed (last l)"
        using chains by (auto simp: laneChain_def)
      have "last l \<in> set (concat lanes)" using l ne last_in_set by auto
      then have "startTime (last l) \<le> startTime x" using le by blast
      moreover have "\<not> endTime (last l) < startTime x" using fresh(2) l by blast
      ultimately have "covers (last l) (startTime x)"
        using wl by (simp add: covers_valid wellFormed_def)
      then show ?thesis using ne by (meson last_in_set)
    qed
    then have "lanesInv ?ls" using c unfolding lanesInv_def by blast
    then show ?thesis using fresh(1) by simp
  qed
qed


lemma assignAll_inv:
  assumes "lanesInv lanes" and "\<forall>x\<in>set xs. wellFormed x"
    and "sorted (map startTime xs)"
    and "\<forall>a\<in>set (concat lanes). \<forall>b\<in>set xs. startTime a \<le> startTime b"
  shows "\<exists>lanes'. assignAll lanes xs = Inr lanes' \<and> lanesInv lanes' \<and>
           mset (concat lanes') = mset (concat lanes) + mset xs \<and>
           (\<exists>ys. subseq ys xs \<and> map hd lanes' = map hd lanes @ ys)"
  using assms
proof (induction xs arbitrary: lanes)
  case Nil
  then show ?case by simp
next
  case (Cons x xs)
  have "\<forall>a\<in>set (concat lanes). startTime a \<le> startTime x"
    using Cons.prems(4) by simp
  with Cons.prems(1,2) obtain l1 where l1: "assignItemToLane lanes x = Inr l1"
    "lanesInv l1" "mset (concat l1) = add_mset x (mset (concat lanes))"
    "map hd l1 = map hd lanes \<or> map hd l1 = map hd lanes @ [x]"
    using assignItemToLane_inv [of lanes x] by auto
  have "set (concat l1) = insert x (set (concat lanes))"
    using l1(3) by (metis set_mset_add_mset_insert set_mset_mset)
  then have le: "\<forall>a\<in>set (concat l1). \<forall>b\<in>set xs. startTime a \<le> startTime b"
    using Cons.prems(3,4) by auto
  from Cons.IH [OF l1(2) _ _ le] Cons.prems(2,3)
  obtain l2 ys where l2: "assignAll l1 xs = Inr l2" "lanesInv l2"
    "mset (concat l2) = mset (concat l1) + mset xs"
    "subseq ys xs" "map hd l2 = map hd l1 @ ys"
    by auto
  have run: "assignAll lanes (x # xs) = Inr l2" using l1(1) l2(1) by simp
  have ms: "mset (concat l2) = mset (concat lanes) + mset (x # xs)"
    using l1(3) l2(3) by simp
  from l1(4) have "\<exists>zs. subseq zs (x # xs) \<and> map hd l2 = map hd lanes @ zs"
  proof
    assume "map hd l1 = map hd lanes"
    then have "map hd l2 = map hd lanes @ ys" using l2(5) by simp
    moreover have "subseq ys (x # xs)" using l2(4) by (rule list_emb_Cons)
    ultimately show ?thesis by blast
  next
    assume "map hd l1 = map hd lanes @ [x]"
    then have "map hd l2 = map hd lanes @ (x # ys)" using l2(5) by simp
    moreover have "subseq (x # ys) (x # xs)" using l2(4) by simp
    ultimately show ?thesis by blast
  qed
  with run l2(2) ms show ?case by blast
qed

lemma assignLanes_main:
  assumes "\<forall>x\<in>set xs. wellFormed x"
  shows "\<exists>lanes. assignLanesToItems (Some xs) = Inr lanes \<and> lanesInv lanes \<and>
           mset (concat lanes) = mset xs \<and> subseq (map hd lanes) (sortItems xs)"
proof (cases "xs = []")
  case True
  then show ?thesis by (simp add: assignLanesToItems_def lanesInv_Nil)
next
  case False
  have wf: "\<forall>x\<in>set (sortItems xs). wellFormed x"
    using assms by (metis mset_sortItems set_mset_mset)
  have "\<forall>x\<in>set xs. validItem x" using assms by (simp add: wellFormed_def)
  then have so: "sorted (map startTime (sortItems xs))" by (rule sorted_sortItems)
  from assignAll_inv [OF lanesInv_Nil wf so]
  obtain lanes ys where "assignAll [] (sortItems xs) = Inr lanes" "lanesInv lanes"
    "mset (concat lanes) = mset (sortItems xs)" "subseq ys (sortItems xs)"
    "map hd lanes = ys"
    by auto
  then show ?thesis using False by (auto simp: assignLanesToItems_def mset_sortItems)
qed

section \<open>Overlap counts and cliques\<close>

lemma length_filter_mono:
  "(\<And>x. x \<in> set xs \<Longrightarrow> P x \<Longrightarrow> Q x) \<Longrightarrow> length (filter P xs) \<le> length (filter Q xs)"
  by (induction xs) auto

lemma foldr_max_ge: "i \<in> set ys \<Longrightarrow> (f i :: nat) \<le> foldr max (map f ys) 0"
  by (induction ys) auto

lemma foldr_max_attained: "ys \<noteq> [] \<Longrightarrow> \<exists>i\<in>set ys. foldr max (map f ys) 0 = (f i :: nat)"
proof (induction ys)
  case Nil
  then show ?case by simp
next
  case (Cons y ys)
  show ?case
  proof (cases "ys = []")
    case True
    then show ?thesis by simp
  next
    case False
    with Cons.IH obtain i where i: "i \<in> set ys" "foldr max (map f ys) 0 = f i" by blast
    have "foldr max (map f (y # ys)) 0 = max (f y) (f i)" using i(2) by simp
    then have "foldr max (map f (y # ys)) 0 = f y \<or> foldr max (map f (y # ys)) 0 = f i"
      by (simp add: max_def)
    then show ?thesis using i(1) by auto
  qed
qed

lemma list_has_max: "ys \<noteq> [] \<Longrightarrow> \<exists>i\<in>set ys. \<forall>j\<in>set ys. f j \<le> (f i :: int)"
proof (induction ys)
  case Nil
  then show ?case by simp
next
  case (Cons y ys)
  show ?case
  proof (cases "ys = []")
    case True
    then show ?thesis by simp
  next
    case False
    with Cons.IH obtain i where i: "i \<in> set ys" "\<forall>j\<in>set ys. f j \<le> f i" by blast
    show ?thesis
    proof (cases "f y \<le> f i")
      case True
      then show ?thesis using i by auto
    next
      case False
      then have "\<forall>j\<in>set (y # ys). f j \<le> f y" using i(2) by force
      then show ?thesis by auto
    qed
  qed
qed

lemma sorted_wrt_pairwise:
  "sorted_wrt P ys \<Longrightarrow> (\<And>a b. P a b \<Longrightarrow> P b a) \<Longrightarrow> a \<in> set ys \<Longrightarrow> b \<in> set ys \<Longrightarrow>
   a = b \<or> P a b"
  by (induction ys) auto

text \<open>Items that share an instant share the latest of their start instants.\<close>

lemma common_instant_latest_start:
  assumes "ys \<noteq> []" and "\<forall>j\<in>set ys. covers j t"
  shows "\<exists>i\<in>set ys. \<forall>j\<in>set ys. covers j (startTime i)"
proof -
  have v: "validItem j" if "j \<in> set ys" for j
    using that assms(2) by (auto simp: covers_def validItem_def split: option.splits)
  obtain i where i: "i \<in> set ys" "\<forall>j\<in>set ys. startTime j \<le> startTime i"
    using assms(1) list_has_max [of ys startTime] by blast
  have "covers j (startTime i)" if j: "j \<in> set ys" for j
  proof -
    have "covers j t" "covers i t" using assms(2) j i(1) by blast+
    then have "t \<le> endTime j" "startTime i \<le> t"
      using v [OF j] v [OF i(1)] by (simp_all add: covers_valid)
    moreover have "startTime j \<le> startTime i" using i(2) j by simp
    ultimately show ?thesis using v [OF j] by (simp add: covers_valid)
  qed
  then show ?thesis using i(1) by blast
qed

lemma overlapCount_le_maxOverlap: "overlapCount t xs \<le> maxOverlap xs"
proof (cases "filter (\<lambda>i. covers i t) xs = []")
  case True
  then show ?thesis by (simp add: overlapCount_def)
next
  case False
  let ?ys = "filter (\<lambda>i. covers i t) xs"
  have "\<forall>j\<in>set ?ys. covers j t" by simp
  with False obtain i where i: "i \<in> set ?ys" "\<forall>j\<in>set ?ys. covers j (startTime i)"
    using common_instant_latest_start by blast
  have "overlapCount t xs \<le> overlapCount (startTime i) xs"
    unfolding overlapCount_def using i(2) by (intro length_filter_mono) simp
  also have "\<dots> \<le> maxOverlap xs"
    unfolding maxOverlap_def using i(1) by (intro foldr_max_ge) simp
  finally show ?thesis .
qed

lemma maxOverlap_attained: "\<exists>t. overlapCount t xs = maxOverlap xs"
proof (cases "xs = []")
  case True
  then show ?thesis by (simp add: maxOverlap_def overlapCount_def)
next
  case False
  then show ?thesis
    unfolding maxOverlap_def
    using foldr_max_attained [of xs "\<lambda>i. overlapCount (startTime i) xs"] by metis
qed

lemma maxOverlap_eqI:
  assumes "\<forall>t. overlapCount t xs \<le> n" and "\<exists>t. overlapCount t xs = n"
  shows "maxOverlap xs = n"
proof -
  obtain t where "overlapCount t xs = maxOverlap xs" using maxOverlap_attained by blast
  then have "maxOverlap xs \<le> n" using assms(1) by metis
  moreover obtain u where "overlapCount u xs = n" using assms(2) by blast
  then have "n \<le> maxOverlap xs" using overlapCount_le_maxOverlap by metis
  ultimately show ?thesis by simp
qed

lemma overlapCount_subseq: "subseq ys xs \<Longrightarrow> overlapCount t ys \<le> overlapCount t xs"
  unfolding overlapCount_def
  by (induction rule: list_emb.induct) auto

text \<open>Pairwise conflicting intervals have a common instant and the other way round.\<close>

lemma clique_common_instant:
  assumes "sorted_wrt conflict ys" and "\<forall>i\<in>set ys. wellFormed i" and "ys \<noteq> []"
  shows "\<exists>t. \<forall>j\<in>set ys. covers j t"
proof -
  obtain i where i: "i \<in> set ys" "\<forall>j\<in>set ys. startTime j \<le> startTime i"
    using assms(3) list_has_max [of ys startTime] by blast
  have "covers j (startTime i)" if j: "j \<in> set ys" for j
  proof -
    have "j = i \<or> conflict j i"
      using sorted_wrt_pairwise [OF assms(1) _ j i(1)] by (auto simp: conflict_def)
    moreover have "wellFormed j" "wellFormed i" using assms(2) i(1) j by auto
    ultimately show ?thesis
      using i(2) j by (auto simp: covers_valid wellFormed_def conflict_def)
  qed
  then show ?thesis by blast
qed

lemma clique_le_overlap:
  assumes "isClique xs ys" and "\<forall>i\<in>set xs. wellFormed i"
  shows "\<exists>t. length ys \<le> overlapCount t xs"
proof (cases "ys = []")
  case True
  then show ?thesis by simp
next
  case False
  have sub: "subseq ys xs" and cl: "sorted_wrt conflict ys"
    using assms(1) by (simp_all add: isClique_def)
  have "\<forall>i\<in>set ys. wellFormed i"
    using list_emb_set [OF sub] assms(2) by blast
  from clique_common_instant [OF cl this False]
  obtain t where "\<forall>j\<in>set ys. covers j t" by blast
  then have "overlapCount t ys = length ys" by (simp add: overlapCount_def)
  then show ?thesis using overlapCount_subseq [OF sub, of t] by metis
qed

lemma overlap_is_clique:
  assumes "\<forall>i\<in>set xs. wellFormed i"
  shows "isClique xs (filter (\<lambda>i. covers i t) xs)"
proof -
  let ?ys = "filter (\<lambda>i. covers i t) xs"
  have pc: "conflict a b" if "a \<in> set ?ys" "b \<in> set ?ys" for a b
  proof -
    have "wellFormed a" "wellFormed b" "covers a t" "covers b t"
      using that assms by simp_all
    then show ?thesis by (simp add: covers_valid wellFormed_def conflict_def)
  qed
  have tr: "sorted_wrt (\<lambda>a b. True) zs" for zs :: "item list"
    by (induction zs) simp_all
  have "sorted_wrt conflict ?ys"
  proof (rule sorted_wrt_mono_rel [where P = "\<lambda>a b. True"])
    show "sorted_wrt (\<lambda>a b. True) ?ys" by (rule tr)
  next
    fix x y
    assume "x \<in> set ?ys" "y \<in> set ?ys"
    then show "conflict x y" by (rule pc)
  qed
  then show ?thesis by (simp add: isClique_def)
qed

lemma sample_wellFormed:
  "wellFormed itemA" "wellFormed itemB" "wellFormed itemC"
  by (simp_all add: wellFormed_def validItem_def startTime_def endTime_def
      itemA_def itemB_def itemC_def mkItem_def isoDay_def msPerDay_def)

lemma example_scenario_1:
  "assignLanesToItems (Some [itemA, itemB, itemC]) = Inr [[itemA, itemC], [itemB]]"
  by (simp add: assignLanesToItems_def sortItems_def compareStart_def
      itemA_def itemB_def itemC_def mkItem_def isoDay_def msPerDay_def)

lemma assignItemToLane_total:
  "\<forall>lane\<in>set lanes. lane \<noteq> [] \<Longrightarrow>
   \<exists>lanes'. assignItemToLane lanes x = Inr lanes' \<and> (\<forall>lane\<in>set lanes'. lane \<noteq> [])"
  by (induction lanes) auto

lemma assignAll_total:
  "\<forall>lane\<in>set lanes. lane \<noteq> [] \<Longrightarrow> \<exists>lanes'. assignAll lanes xs = Inr lanes'"
proof (induction xs arbitrary: lanes)
  case Nil
  then show ?case by simp
next
  case (Cons x xs)
  from assignItemToLane_total [OF Cons.prems, of x]
  obtain l1 where "assignItemToLane lanes x = Inr l1" "\<forall>lane\<in>set l1. lane \<noteq> []" by blast
  then show ?case using Cons.IH [of l1] by simp
qed

lemma assignLanesToItems_total: "\<exists>lanes. assignLanesToItems its = Inr lanes"
  using assignAll_total [of "[]"]
  by (simp add: assignLanesToItems_def split: option.splits)

section \<open>Lane assignment: partition and number of lanes\<close>

text \<open>
  Claim C1, amended. For every non-empty item sequence with valid dates in which each
  item satisfies \<open>start \<le> end\<close>, \<open>assignLanesToItems\<close> returns lanes that hold
  every input item exactly once (the lanes, laid end to end, are a permutation of the
  input), and the number of lanes is the largest number of items whose intervals
  \<open>[start, end]\<close> share an instant: no instant is shared by more items than there
  are lanes, and some instant is shared by exactly that many. It is also the clique
  number for the compatibility test \<open>end < start\<close>: no selection of pairwise
  conflicting items is longer than the number of lanes, and one has that length.
\<close>

theorem assignLanes_optimal:
  assumes "xs \<noteq> []" and "\<forall>x\<in>set xs. wellFormed x"
  shows "\<exists>lanes. assignLanesToItems (Some xs) = Inr lanes \<and>
           mset (concat lanes) = mset xs \<and>
           length lanes = maxOverlap xs \<and>
           (\<forall>t. overlapCount t xs \<le> length lanes) \<and>
           (\<exists>t. overlapCount t xs = length lanes) \<and>
           (\<forall>ys. isClique xs ys \<longrightarrow> length ys \<le> length lanes) \<and>
           (\<exists>ys. isClique xs ys \<and> length ys = length lanes)"
proof -
  from assignLanes_main [OF assms(2)]
  obtain lanes where run: "assignLanesToItems (Some xs) = Inr lanes"
    and inv: "lanesInv lanes" and ms: "mset (concat lanes) = mset xs"
    by blast
  have cnt: "overlapCount t (concat lanes) = overlapCount t xs" for t
    using ms by (rule overlapCount_mset)
  have chains: "\<forall>lane\<in>set lanes. laneChain lane" using inv by (simp add: lanesInv_def)
  have up: "\<forall>t. overlapCount t xs \<le> length lanes"
    using overlapCount_upper [OF chains] cnt by simp
  obtain t where "\<forall>lane\<in>set lanes. \<exists>i\<in>set lane. covers i t"
    using inv by (auto simp: lanesInv_def)
  then have "length lanes \<le> overlapCount t xs"
    using overlapCount_lower [of lanes t] cnt by simp
  then have att: "overlapCount t xs = length lanes" using up by (simp add: le_antisym)
  have "maxOverlap xs = length lanes"
    using up att by (intro maxOverlap_eqI) blast+
  then have mx: "length lanes = maxOverlap xs" by simp
  have att': "\<exists>t. overlapCount t xs = length lanes" using att by blast
  have cl_up: "length ys \<le> length lanes" if c: "isClique xs ys" for ys
  proof -
    obtain u where "length ys \<le> overlapCount u xs"
      using clique_le_overlap [OF c assms(2)] by blast
    then show ?thesis using up by (meson le_trans)
  qed
  have "isClique xs (filter (\<lambda>i. covers i t) xs)"
    using assms(2) by (rule overlap_is_clique)
  moreover have "length (filter (\<lambda>i. covers i t) xs) = length lanes"
    using att by (simp add: overlapCount_def)
  ultimately have cl_att: "\<exists>ys. isClique xs ys \<and> length ys = length lanes" by blast
  have cl_up': "\<forall>ys. isClique xs ys \<longrightarrow> length ys \<le> length lanes"
    using cl_up by blast
  show ?thesis
    using run ms mx up att' cl_up' cl_att by (intro exI [of _ lanes] conjI)
qed

text \<open>The theorem at the items A, B and C of the first example scenario.\<close>

theorem assignLanes_optimal_witness:
  "[itemA, itemB, itemC] \<noteq> [] \<and> wellFormed itemA \<and> wellFormed itemB \<and> wellFormed itemC \<and>
   (\<exists>lanes. assignLanesToItems (Some [itemA, itemB, itemC]) = Inr lanes \<and>
      mset (concat lanes) = mset [itemA, itemB, itemC] \<and>
      length lanes = maxOverlap [itemA, itemB, itemC])"
proof -
  have ne: "[itemA, itemB, itemC] \<noteq> []" by simp
  have wf: "\<forall>x\<in>set [itemA, itemB, itemC]. wellFormed x"
    by (simp add: sample_wellFormed)
  from assignLanes_optimal [OF ne wf] show ?thesis using sample_wellFormed by blast
qed

text \<open>
  Without \<open>start \<le> end\<close> the number of lanes can exceed the overlap: an item
  from 2024-01-05 to 2024-01-20 and an item starting on 2024-01-10 and ending on
  2024-01-01 both have valid dates; the second one fails the placement test against
  the first and opens a second lane, while its interval is empty, so that no instant is
  shared by more than one item; the two items are not in conflict either, since the
  second ends before the first starts.
\<close>

theorem inverted_item_lanes:
  "validItem itemLong \<and> validItem itemInverted \<and>
   assignLanesToItems (Some [itemLong, itemInverted]) = Inr [[itemLong], [itemInverted]] \<and>
   maxOverlap [itemLong, itemInverted] = 1 \<and> \<not> conflict itemLong itemInverted"
  by (simp add: assignLanesToItems_def sortItems_def compareStart_def maxOverlap_def
      overlapCount_def covers_def validItem_def startTime_def endTime_def conflict_def
      itemLong_def itemInverted_def mkItem_def isoDay_def msPerDay_def)

section \<open>Lane assignment: order within and between lanes\<close>

text \<open>
  Claim C2. For every item sequence with valid dates where each item satisfies
  \<open>start \<le> end\<close>, in every lane returned by \<open>assignLanesToItems\<close> the items are
  in strictly ascending order of start date, every item ends strictly before every
  later item of the lane starts, in particular each one before its successor, and the
  lanes are in the order of their creation: the items that opened the lanes (the lane
  heads) occur in that order in the sorted sequence the loop runs through.
\<close>

theorem lanes_ordered:
  assumes "\<forall>x\<in>set xs. wellFormed x"
  shows "\<exists>lanes. assignLanesToItems (Some xs) = Inr lanes \<and>
           (\<forall>lane\<in>set lanes. lane \<noteq> [] \<and>
              sorted_wrt (\<lambda>a b. startTime a < startTime b) lane \<and>
              sorted_wrt (\<lambda>a b. endTime a < startTime b) lane \<and>
              successively (\<lambda>a b. endTime a < startTime b) lane) \<and>
           subseq (map hd lanes) (sortItems xs)"
proof -
  from assignLanes_main [OF assms]
  obtain lanes where run: "assignLanesToItems (Some xs) = Inr lanes"
    and inv: "lanesInv lanes" and sub: "subseq (map hd lanes) (sortItems xs)"
    by blast
  have "lane \<noteq> [] \<and> sorted_wrt (\<lambda>a b. startTime a < startTime b) lane \<and>
        sorted_wrt (\<lambda>a b. endTime a < startTime b) lane \<and>
        successively (\<lambda>a b. endTime a < startTime b) lane" if "lane \<in> set lanes" for lane
  proof -
    have ch: "laneChain lane" using inv that by (simp add: lanesInv_def)
    then have ne: "lane \<noteq> []" and sw: "sorted_wrt (\<lambda>a b. endTime a < startTime b) lane"
      and wf: "\<forall>i\<in>set lane. wellFormed i"
      by (simp_all add: laneChain_def)
    have "sorted_wrt (\<lambda>a b. startTime a < startTime b) lane"
    proof (rule sorted_wrt_mono_rel [OF _ sw])
      fix a b
      assume "a \<in> set lane" "endTime a < startTime b"
      then show "startTime a < startTime b" using wf by (auto simp: wellFormed_def)
    qed
    then show ?thesis using ne sw successively_if_sorted_wrt [OF sw] by simp
  qed
  then show ?thesis using run sub by blast
qed

text \<open>The theorem at the items C, B and A.\<close>

theorem lanes_ordered_witness:
  "wellFormed itemC \<and> wellFormed itemB \<and> wellFormed itemA \<and>
   (\<exists>lanes. assignLanesToItems (Some [itemC, itemB, itemA]) = Inr lanes \<and>
      (\<forall>lane\<in>set lanes. lane \<noteq> [] \<and>
         sorted_wrt (\<lambda>a b. startTime a < startTime b) lane \<and>
         successively (\<lambda>a b. endTime a < startTime b) lane) \<and>
      subseq (map hd lanes) (sortItems [itemC, itemB, itemA]))"
proof -
  have wf: "\<forall>x\<in>set [itemC, itemB, itemA]. wellFormed x"
    by (simp add: sample_wellFormed)
  from lanes_ordered [OF wf] show ?thesis using sample_wellFormed by blast
qed

section \<open>Lane assignment: null input\<close>

text \<open>
  Claim C10. When the \<open>items\<close> argument is \<open>null\<close> or \<open>undefined\<close>,
  \<open>assignLanesToItems\<close> returns the empty lane sequence without throwing, exactly as
  it does for the empty array.
\<close>

theorem assignLanesToItems_null:
  "assignLanesToItems None = Inr [] \<and> assignLanesToItems None = assignLanesToItems (Some [])"
  by (simp add: assignLanesToItems_def)

section \<open>Pixels and days\<close>

lemma msPerDay_pos: "0 < msPerDay"
  by (simp add: msPerDay_def)

lemma msPerDay_nz: "msPerDay \<noteq> 0"
  by (simp add: msPerDay_def)




lemma daysDelta_near:
  assumes "0 < z" and "\<bar>e\<bar> < 12 * z"
  shows "daysDelta (of_int n * 24 * z + e) z = n"
proof -
  have "(of_int n * 24 * z + e) / (24 * z) = of_int n + e / (24 * z)"
    using assms(1) by (simp add: field_simps)
  moreover have "\<bar>e / (24 * z)\<bar> < 1 / 2"
    using assms by (simp add: field_simps abs_if split: if_splits)
  ultimately have "round ((of_int n * 24 * z + e) / (24 * z)) = n"
    by (intro round_unique') (simp add: abs_if split: if_splits)
  then show ?thesis by (simp add: daysDelta_def)
qed

lemma ceil_day_aligned: "- ((- (k * msPerDay)) div msPerDay) = k"
proof -
  have "(- (k * msPerDay)) div msPerDay = (- k * msPerDay) div msPerDay" by simp
  also have "\<dots> = - k" using msPerDay_nz by (rule nonzero_mult_div_cancel_right)
  finally show ?thesis by simp
qed


section \<open>Time zones: helper facts\<close>

lemma msPerDay_value: "msPerDay = 86400000"
  by (simp add: msPerDay_def)

lemma setDateOffset_fixed:
  "setDateOffset (fixedZone c) (Some t) n = timeClip (t + n * msPerDay)"
  by (simp add: setDateOffset_def fixedZone_def localTime_def utcOfLocal_def)

lemma setDateOffset_invalid: "setDateOffset tz None n = None"
  by (simp add: setDateOffset_def)

lemma timeClip_Some: "timeClip t = Some u \<Longrightarrow> u = t"
  by (simp add: timeClip_def split: if_splits)

lemma setDateOffset_cases:
  "setDateOffset tz d n = None \<or> (\<exists>t. setDateOffset tz d n = Some t)"
  by (cases "setDateOffset tz d n") simp_all

section \<open>Item geometry: helper facts\<close>

text \<open>From an origin on a whole day the offsets are the calendar-day differences; from
  an origin past a whole day the start offset is rounded down and the end offset up, so
  that the bar starts one day earlier and is one day longer.\<close>

lemma getItemStyle_aligned:
  assumes "start i = isoDay ks" and "end' i = isoDay ke"
  shows "getItemStyle (Some (km * msPerDay)) z i =
           \<lparr>left = Some (of_int (ks - km) * 24 * z),
            width = Some (max (of_int (ke - ks) * 24 * z) 80),
            backgroundColor = colorOrDefault (color i)\<rparr> \<and>
         (ke = ks + 2 \<longrightarrow>
            width (getItemStyle (Some (km * msPerDay)) 1 i) = Some 80 \<and>
            width (getItemStyle (Some (km * msPerDay)) 5 i) = Some 240)"
proof -
  have s: "(ks * msPerDay - km * msPerDay) div msPerDay = ks - km"
    using msPerDay_nz by (simp flip: left_diff_distrib)
  have e: "- ((- (ke * msPerDay - km * msPerDay)) div msPerDay) = ke - km"
    using ceil_day_aligned [of "ke - km"] by (simp add: left_diff_distrib)
  have g: "getItemStyle (Some (km * msPerDay)) y i =
           \<lparr>left = Some (of_int (ks - km) * 24 * y),
            width = Some (max (of_int (ke - ks) * 24 * y) 80),
            backgroundColor = colorOrDefault (color i)\<rparr>" for y
    using assms s e
    by (simp add: getItemStyle_def tryItemStyle_def floorDays_def ceilDays_def isoDay_def
        Let_def)
  show ?thesis using g [of z] g [of 1] g [of 5] by simp
qed


lemma getItemStyle_off_day:
  assumes "start i = isoDay ks" and "end' i = isoDay ke" and "0 < r" and "r < msPerDay"
  shows "getItemStyle (Some (km * msPerDay + r)) z i =
           \<lparr>left = Some (of_int (ks - km - 1) * 24 * z),
            width = Some (max (of_int (ke - ks + 1) * 24 * z) 80),
            backgroundColor = colorOrDefault (color i)\<rparr>"
proof -
  have "(ks * msPerDay - (km * msPerDay + r)) div msPerDay =
        (- r + (ks - km) * msPerDay) div msPerDay"
    by (simp add: algebra_simps)
  also have "\<dots> = (ks - km) + (- r) div msPerDay"
    using msPerDay_nz by (rule div_mult_self1)
  also have "(- r) div msPerDay = - 1"
    using assms(3,4) by (simp add: div_eq_minus1 zdiv_zminus1_eq_if)
  finally have s: "(ks * msPerDay - (km * msPerDay + r)) div msPerDay = ks - km - 1"
    by simp
  have "(- (ke * msPerDay - (km * msPerDay + r))) div msPerDay =
        (r + (km - ke) * msPerDay) div msPerDay"
    by (simp add: algebra_simps)
  also have "\<dots> = (km - ke) + r div msPerDay"
    using msPerDay_nz by (rule div_mult_self1)
  also have "r div msPerDay = 0" using assms(3,4) by simp
  finally have e: "- ((- (ke * msPerDay - (km * msPerDay + r))) div msPerDay) = ke - km"
    by simp
  have r: "x + (24 - y) = x - y + (24 :: real)" for x y by simp
  show ?thesis
    using assms(1,2) s e
    by (simp add: getItemStyle_def tryItemStyle_def floorDays_def ceilDays_def isoDay_def
        Let_def r)
qed

lemma tryItemStyle_total: "\<exists>st. tryItemStyle minD z i = Inr st"
  by (simp add: tryItemStyle_def Let_def)

section \<open>Visible date range: helper facts\<close>

lemma mathMin_valid:
  "xs \<noteq> [] \<Longrightarrow> mathMin (map (\<lambda>i. Some (f i)) xs) = Some (Min (f ` set xs))"
proof (induction xs rule: induct_list012)
  case 1
  then show ?case by simp
next
  case (2 x)
  then show ?case by simp
next
  case (3 x y zs)
  then show ?case by (simp add: min.commute min.left_commute)
qed

lemma mathMax_valid:
  "xs \<noteq> [] \<Longrightarrow> mathMax (map (\<lambda>i. Some (f i)) xs) = Some (Max (f ` set xs))"
proof (induction xs rule: induct_list012)
  case 1
  then show ?case by simp
next
  case (2 x)
  then show ?case by simp
next
  case (3 x y zs)
  then show ?case by (simp add: max.commute max.left_commute)
qed

lemma mathMin_NaN: "None \<in> set ts \<Longrightarrow> mathMin ts = None"
  by (induction ts rule: mathMin.induct) (auto split: option.splits)

lemma mathMax_NaN: "None \<in> set ts \<Longrightarrow> mathMax ts = None"
  by (induction ts rule: mathMax.induct) (auto split: option.splits)

lemma newDate_start_valid: "validItem i \<Longrightarrow> newDate (start i) = Some (startTime i)"
  by (auto simp: validItem_def startTime_def)

lemma newDate_end_valid: "validItem i \<Longrightarrow> newDate (end' i) = Some (endTime i)"
  by (auto simp: validItem_def endTime_def)


text \<open>What the \<open>try\<close> block computes for valid dates when the array can be spread:
  the least start and the greatest end, each moved by seven days of the local
  calendar.\<close>

lemma calculateDateRange_valid:
  assumes "xs \<noteq> []" and "\<forall>i\<in>set xs. validItem i" and "length xs \<le> argLimit"
  shows "calculateDateRange now tz argLimit (Some xs) =
           \<lparr>minDate = setDateOffset tz (timeClip (Min (startTime ` set xs))) (- 7),
            maxDate = setDateOffset tz (timeClip (Max (endTime ` set xs))) 7\<rparr>"
proof -
  have es: "map (\<lambda>i. newDate (start i)) xs = map (\<lambda>i. Some (startTime i)) xs"
    using assms(2) by (simp add: newDate_start_valid)
  have mn: "mathMin (map (\<lambda>i. newDate (start i)) xs) = Some (Min (startTime ` set xs))"
    unfolding es using assms(1) by (rule mathMin_valid)
  have ee: "map (\<lambda>i. newDate (end' i)) xs = map (\<lambda>i. Some (endTime i)) xs"
    using assms(2) by (simp add: newDate_end_valid)
  have mx: "mathMax (map (\<lambda>i. newDate (end' i)) xs) = Some (Max (endTime ` set xs))"
    unfolding ee using assms(1) by (rule mathMax_valid)
  show ?thesis
    using assms(1,3) mn mx
    by (simp add: calculateDateRange_def tryDateRange_def newDateNum_def)
qed

text \<open>On a host whose offset from UTC never changes this is the least start minus
  seven days and the greatest end plus seven days, as long as these are dates.\<close>

lemma calculateDateRange_fixed_zone:
  assumes "xs \<noteq> []" and "\<forall>i\<in>set xs. validItem i" and "length xs \<le> argLimit"
    and "\<bar>Min (startTime ` set xs)\<bar> \<le> maxTime - 7 * msPerDay"
    and "\<bar>Max (endTime ` set xs)\<bar> \<le> maxTime - 7 * msPerDay"
  shows "calculateDateRange now (fixedZone c) argLimit (Some xs) =
           \<lparr>minDate = Some (Min (startTime ` set xs) - 7 * msPerDay),
            maxDate = Some (Max (endTime ` set xs) + 7 * msPerDay)\<rparr>"
proof -
  have d: "0 \<le> 7 * msPerDay" using msPerDay_pos by simp
  have a: "timeClip (Min (startTime ` set xs)) = Some (Min (startTime ` set xs))"
    "timeClip (Min (startTime ` set xs) - 7 * msPerDay) =
       Some (Min (startTime ` set xs) - 7 * msPerDay)"
    using assms(4) d by (simp_all add: timeClip_def)
  have b: "timeClip (Max (endTime ` set xs)) = Some (Max (endTime ` set xs))"
    "timeClip (Max (endTime ` set xs) + 7 * msPerDay) =
       Some (Max (endTime ` set xs) + 7 * msPerDay)"
    using assms(5) d by (simp_all add: timeClip_def)
  show ?thesis
    unfolding calculateDateRange_valid [OF assms(1,2,3)]
    by (simp add: a b setDateOffset_fixed)
qed

text \<open>An array too long to be spread gives the fallback window.\<close>

lemma calculateDateRange_too_long:
  "argLimit < length xs \<Longrightarrow>
   calculateDateRange now tz argLimit (Some xs) = defaultRange now tz"
  by (auto simp: calculateDateRange_def tryDateRange_def)

text \<open>No items: the window starts now and ends at local midnight of the calendar day
  30 days after today's.\<close>

lemma calculateDateRange_empty:
  "calculateDateRange now tz argLimit None = defaultRange now tz"
  "calculateDateRange now tz argLimit (Some []) = defaultRange now tz"
  "minDate (defaultRange now tz) = Some now"
  "maxDate (defaultRange now tz) =
     timeClip (utcOfLocal tz ((localDay tz now + 30) * msPerDay))"
  by (simp_all add: calculateDateRange_def defaultRange_def)

text \<open>An unparseable date is never replaced by the fallback window: it makes the
  corresponding end of the range an Invalid Date.\<close>

lemma calculateDateRange_malformed:
  assumes "i \<in> set xs" and "length xs \<le> argLimit"
  shows "newDate (start i) = None \<Longrightarrow>
           minDate (calculateDateRange now tz argLimit (Some xs)) = None"
    and "newDate (end' i) = None \<Longrightarrow>
           maxDate (calculateDateRange now tz argLimit (Some xs)) = None"
proof -
  have ne: "xs \<noteq> []" using assms(1) by auto
  show "minDate (calculateDateRange now tz argLimit (Some xs)) = None"
    if "newDate (start i) = None"
  proof -
    have "None \<in> set (map (\<lambda>i. newDate (start i)) xs)" using assms(1) that by force
    then show ?thesis
      using ne assms(2)
      by (simp add: calculateDateRange_def tryDateRange_def setDateOffset_def
          newDateNum_def mathMin_NaN)
  qed
  show "maxDate (calculateDateRange now tz argLimit (Some xs)) = None"
    if "newDate (end' i) = None"
  proof -
    have "None \<in> set (map (\<lambda>i. newDate (end' i)) xs)" using assms(1) that by force
    then show ?thesis
      using ne assms(2)
      by (simp add: calculateDateRange_def tryDateRange_def setDateOffset_def
          newDateNum_def mathMax_NaN)
  qed
qed


section \<open>Drag steps: helper facts\<close>

lemma handleZoom_range:
  "1 / 2 \<le> zoomLevel (handleZoom b s) \<and> zoomLevel (handleZoom b s) \<le> 5"
  by (simp add: handleZoom_def Let_def)

lemma dragItem_other: "id' i \<noteq> id' d \<Longrightarrow> dragItem tz d ty n i = Inr i"
  by (simp add: dragItem_def)

text \<open>A resize step never throws: \<open>toISOString\<close> is only reached behind a guard
  that an Invalid Date does not pass.\<close>

lemma dragItem_resize_total:
  assumes "ty \<noteq> Some DragMove"
  shows "\<exists>i1. dragItem tz d ty n i = Inr i1"
proof (cases ty)
  case None
  then show ?thesis by (simp add: dragItem_def)
next
  case (Some m)
  show ?thesis
  proof (cases m)
    case DragStart
    show ?thesis
      unfolding Some DragStart
      by (cases "setDateOffset tz (newDate (start i)) n"; cases "newDate (end' i)")
        (simp_all add: dragItem_def Let_def toISODate_def)
  next
    case DragEnd
    show ?thesis
      unfolding Some DragEnd
      by (cases "setDateOffset tz (newDate (end' i)) n"; cases "newDate (start i)")
        (simp_all add: dragItem_def Let_def toISODate_def)
  next
    case DragMove
    then show ?thesis using assms Some by simp
  qed
qed

lemma day_plus_div: "(k * msPerDay + n * msPerDay) div msPerDay = k + n"
proof -
  have "(k * msPerDay + n * msPerDay) div msPerDay = ((k + n) * msPerDay) div msPerDay"
    by (simp add: distrib_right)
  also have "\<dots> = k + n" using msPerDay_nz by (rule nonzero_mult_div_cancel_right)
  finally show ?thesis .
qed

text \<open>On a host whose offset from UTC never changes the guards do what their comments
  say: a resize step on an item with calendar-day dates and \<open>start < end\<close> returns
  an item with calendar-day dates and \<open>start < end\<close>.\<close>

lemma dragItem_resize_fixed_zone:
  assumes "start i = isoDay ks" and "end' i = isoDay ke" and "ks < ke"
    and "ty = DragStart \<or> ty = DragEnd"
  shows "\<exists>i1 ks1 ke1. dragItem (fixedZone c) d (Some ty) n i = Inr i1 \<and>
           start i1 = isoDay ks1 \<and> end' i1 = isoDay ke1 \<and> ks1 < ke1"
proof -
  have dayI: "\<exists>i1 ks1 ke1. r = Inr i1 \<and> start i1 = isoDay ks1 \<and> end' i1 = isoDay ke1 \<and>
      ks1 < ke1"
    if "r = Inr i1" "start i1 = isoDay a" "end' i1 = isoDay b" "a < b"
    for r :: "jserror + item" and i1 a b
    using that by blast
  have lt: "(a * msPerDay + n * msPerDay < b * msPerDay) = (a + n < b)" for a b
    using msPerDay_pos by (simp flip: distrib_right)
  have gt: "(a * msPerDay < b * msPerDay + n * msPerDay) = (a < b + n)" for a b
    using msPerDay_pos by (simp flip: distrib_right)
  show ?thesis
  proof (cases "id' i = id' d")
    case False
    then have "dragItem (fixedZone c) d (Some ty) n i = Inr i" by (rule dragItem_other)
    then show ?thesis using assms(1,2,3) by (rule dayI)
  next
    case True
    from assms(4) show ?thesis
    proof
      assume ty: "ty = DragStart"
      show ?thesis
      proof (cases "\<bar>ks * msPerDay + n * msPerDay\<bar> \<le> maxTime \<and> ks + n < ke")
        case True
        have "dragItem (fixedZone c) d (Some ty) n i = Inr (i\<lparr>start := isoDay (ks + n)\<rparr>)"
          using assms(1,2) \<open>id' i = id' d\<close> True
          by (simp add: ty dragItem_def Let_def setDateOffset_fixed timeClip_def
              toISODate_def isoDay_def lt day_plus_div)
        then show ?thesis
          by (rule dayI [where a = "ks + n" and b = ke]) (use assms True in simp_all)
      next
        case False
        have "dragItem (fixedZone c) d (Some ty) n i = Inr i"
          using assms(1,2) \<open>id' i = id' d\<close> False
          by (auto simp: ty dragItem_def Let_def setDateOffset_fixed timeClip_def
              isoDay_def lt)
        then show ?thesis using assms(1,2,3) by (rule dayI)
      qed
    next
      assume ty: "ty = DragEnd"
      show ?thesis
      proof (cases "\<bar>ke * msPerDay + n * msPerDay\<bar> \<le> maxTime \<and> ks < ke + n")
        case True
        have "dragItem (fixedZone c) d (Some ty) n i = Inr (i\<lparr>end' := isoDay (ke + n)\<rparr>)"
          using assms(1,2) \<open>id' i = id' d\<close> True
          by (simp add: ty dragItem_def Let_def setDateOffset_fixed timeClip_def
              toISODate_def isoDay_def gt day_plus_div)
        then show ?thesis
          by (rule dayI [where a = ks and b = "ke + n"]) (use assms True in simp_all)
      next
        case False
        have "dragItem (fixedZone c) d (Some ty) n i = Inr i"
          using assms(1,2) \<open>id' i = id' d\<close> False
          by (auto simp: ty dragItem_def Let_def setDateOffset_fixed timeClip_def
              isoDay_def gt)
        then show ?thesis using assms(1,2,3) by (rule dayI)
      qed
    qed
  qed
qed

lemma dragStateA_facts:
  "draggingItem dragStateA = Some itemA" "items dragStateA = [itemA, itemB]"
  "dragStartX dragStateA = 100" "zoomLevel dragStateA = 1"
  by (simp_all add: dragStateA_def)

lemma daysDelta_samples:
  "daysDelta 5 1 = 0" "daysDelta 72 1 = 3" "daysDelta 24 1 = 1" "daysDelta (- 24) 1 = - 1"
  using daysDelta_near [of 1 5 0] daysDelta_near [of 1 0 3] daysDelta_near [of 1 0 1]
    daysDelta_near [of 1 0 "- 1"]
  by simp_all

text \<open>The fourth example scenario, on a host in UTC: moving item A by three days.\<close>

lemma example_scenario_4:
  "dragItem utcZone itemA (Some DragMove) 3 itemA =
     Inr (itemA\<lparr>start := isoDay 19726, end' := isoDay 19730\<rparr>)"
  by (simp add: dragItem_def Let_def utcZone_def setDateOffset_fixed timeClip_def
      maxTime_def toISODate_def itemA_def mkItem_def isoDay_def msPerDay_def)

text \<open>The range and the origin for the item from 2024-03-12 to 2024-03-15 on a host in
  New York: seven local calendar days before the start lies on the other side of the
  change to summer time of 2024-03-10, one hour past UTC midnight.\<close>

lemma newYork_march_range:
  "calculateDateRange now newYork2024 (Suc k) (Some [itemMarch]) =
     \<lparr>minDate = Some (19787 * msPerDay + msPerHour), maxDate = Some (19804 * msPerDay)\<rparr>"
  by (simp add: calculateDateRange_def tryDateRange_def newDateNum_def setDateOffset_def
      localTime_def utcOfLocal_def timeClip_def maxTime_def newYork2024_def summerZone_def
      itemMarch_def mkItem_def isoDay_def msPerDay_def msPerHour_def)

section \<open>Round trip between pixels and days\<close>



section \<open>Item geometry\<close>

text \<open>
  Claim C8 says that for every item with valid dates, every valid origin \<open>minDate\<close>
  and every zoom factor in \<open>[0.5, 5]\<close>, \<open>left\<close> is the number of days from the
  origin to the start times \<open>24 * zoom\<close> and \<open>width\<close> is the number of days from
  start to end times \<open>24 * zoom\<close>, at least 80. On a host in New York the origin
  that \<open>calculateDateRange\<close> yields for the item from 2024-03-12 to 2024-03-15 is
  2024-03-05T01:00Z, and at zoom 1 \<open>getItemStyle\<close> gives \<open>left = 144\<close> (six days)
  and \<open>width = 96\<close> (four days), where the seven days from 2024-03-05 and the three
  days of the item make 168 and 80.
\<close>

theorem getItemStyle_newYork_origin:
  "start itemMarch = isoDay 19794 \<and> end' itemMarch = isoDay 19797 \<and>
   minDate (calculateDateRange now newYork2024 (Suc k) (Some [itemMarch])) =
     Some (19787 * msPerDay + msPerHour) \<and>
   getItemStyle (minDate (calculateDateRange now newYork2024 (Suc k) (Some [itemMarch])))
       1 itemMarch =
     \<lparr>left = Some 144, width = Some 96, backgroundColor = ''#4287f5''\<rparr>"
proof -
  have a: "start itemMarch = isoDay 19794" "end' itemMarch = isoDay 19797"
    "color itemMarch = None"
    by (simp_all add: itemMarch_def mkItem_def)
  have r: "0 < msPerHour" "msPerHour < msPerDay"
    by (simp_all add: msPerHour_def msPerDay_def)
  show ?thesis
    using getItemStyle_off_day [OF a(1,2) r, of 19787 1] a
    by (simp add: newYork_march_range colorOrDefault_def)
qed

section \<open>Visible date range\<close>

text \<open>
  Claim C5 says that \<open>calculateDateRange\<close> returns the window from today to today
  plus 30 days when there are no items, and otherwise the least start minus 7 days and
  the greatest end plus 7 days. The first half holds (\<open>calculateDateRange_empty\<close>),
  and so does the second on a host whose offset from UTC never changes
  (\<open>calculateDateRange_fixed_zone\<close>). On a host in New York, for the item from
  2024-03-12 to 2024-03-15, \<open>setDate\<close> steps seven days back on the local calendar
  across the change to summer time, and \<open>minDate\<close> is 2024-03-05T01:00Z, an hour
  after the start minus 7 days; for the item from 2024-11-05 to 2024-11-08 the step
  crosses the change back, and \<open>minDate\<close> is 2024-10-28T23:00Z, an hour before the
  start minus 7 days and on the UTC day before it.
\<close>

theorem calculateDateRange_newYork_padding:
  "validItem itemMarch \<and>
   startTime itemMarch - 7 * msPerDay = 19787 * msPerDay \<and>
   endTime itemMarch + 7 * msPerDay = 19804 * msPerDay \<and>
   calculateDateRange now newYork2024 (Suc k) (Some [itemMarch]) =
     \<lparr>minDate = Some (19787 * msPerDay + msPerHour), maxDate = Some (19804 * msPerDay)\<rparr> \<and>
   minDate (calculateDateRange now newYork2024 (Suc k) (Some [itemMarch])) \<noteq>
     Some (startTime itemMarch - 7 * msPerDay) \<and>
   validItem itemNovember \<and>
   startTime itemNovember - 7 * msPerDay = 20025 * msPerDay \<and>
   minDate (calculateDateRange now newYork2024 (Suc k) (Some [itemNovember])) =
     Some (20025 * msPerDay - msPerHour) \<and>
   toISODate (minDate (calculateDateRange now newYork2024 (Suc k) (Some [itemNovember]))) =
     Inr (isoDay 20024)"
proof -
  have m: "validItem itemMarch" "startTime itemMarch - 7 * msPerDay = 19787 * msPerDay"
    "endTime itemMarch + 7 * msPerDay = 19804 * msPerDay"
    by (simp_all add: validItem_def startTime_def endTime_def itemMarch_def mkItem_def
        isoDay_def msPerDay_def)
  have d: "minDate (calculateDateRange now newYork2024 (Suc k) (Some [itemMarch])) \<noteq>
      Some (startTime itemMarch - 7 * msPerDay)"
    by (simp add: newYork_march_range m(2)) (simp add: msPerHour_def)
  have n: "validItem itemNovember" "startTime itemNovember - 7 * msPerDay = 20025 * msPerDay"
    by (simp_all add: validItem_def startTime_def itemNovember_def mkItem_def isoDay_def
        msPerDay_def)
  have o: "minDate (calculateDateRange now newYork2024 (Suc k) (Some [itemNovember])) =
      Some (20025 * msPerDay - msPerHour)"
    by (simp add: calculateDateRange_def tryDateRange_def newDateNum_def setDateOffset_def
        localTime_def utcOfLocal_def timeClip_def maxTime_def newYork2024_def
        summerZone_def itemNovember_def mkItem_def isoDay_def msPerDay_def msPerHour_def)
  have t: "toISODate (Some (20025 * msPerDay - msPerHour)) = Inr (isoDay 20024)"
    by (simp add: toISODate_def isoDay_def msPerDay_def msPerHour_def)
  show ?thesis using m d n o t by (simp add: newYork_march_range)
qed

text \<open>
  Claim C6 says that a sequence containing an item with an unparseable date makes the
  computation return the fallback window of the empty input. The \<open>catch\<close> branch
  that holds the fallback is not reached: for the single item with an unparseable
  start nothing throws, on any host \<open>minDate\<close> is an Invalid Date and the result is
  not the fallback window; on a host in UTC it is the Invalid Date together with
  2024-01-12.
\<close>

theorem malformed_start_not_default:
  "minDate (calculateDateRange now tz (Suc k) (Some [itemBad])) = None \<and>
   calculateDateRange now tz (Suc k) (Some [itemBad]) \<noteq>
     calculateDateRange now tz (Suc k) (Some []) \<and>
   calculateDateRange now utcZone (Suc k) (Some [itemBad]) =
     \<lparr>minDate = None, maxDate = Some (19734 * msPerDay)\<rparr>"
proof -
  have m: "minDate (calculateDateRange now tz (Suc k) (Some [itemBad])) = None"
    by (simp add: calculateDateRange_def tryDateRange_def newDateNum_def
        setDateOffset_def itemBad_def mkItem_def)
  have "minDate (calculateDateRange now tz (Suc k) (Some [])) = Some now"
    by (simp add: calculateDateRange_def defaultRange_def)
  then have n: "calculateDateRange now tz (Suc k) (Some [itemBad]) \<noteq>
      calculateDateRange now tz (Suc k) (Some [])"
    using m by auto
  have u: "calculateDateRange now utcZone (Suc k) (Some [itemBad]) =
      \<lparr>minDate = None, maxDate = Some (19734 * msPerDay)\<rparr>"
    by (simp add: calculateDateRange_def tryDateRange_def newDateNum_def utcZone_def
        setDateOffset_fixed setDateOffset_invalid timeClip_def maxTime_def
        itemBad_def mkItem_def isoDay_def msPerDay_def)
  show ?thesis using m n u by simp
qed

section \<open>Drag steps\<close>

text \<open>
  Claim C4 says that a drag step in mode \<open>end\<close> whose candidate end is on or
  before the start leaves the item unchanged, and that \<open>start < end\<close> holds after
  any drag steps on the handles. On a host whose offset from UTC never changes the
  guards see to that (\<open>dragItem_resize_fixed_zone\<close>). On a host in Berlin, for the
  item from 2024-03-31 to 2024-04-01, dragging the end handle back by one day asks
  \<open>setDate\<close> for 02:00 local time on 2024-03-31, which the change to summer time
  skips; the date becomes 2024-03-31T01:00Z, the guard \<open>end > start\<close> lets it pass,
  and the end written back is 2024-03-31, the day of the start.
\<close>

theorem drag_end_berlin_spring:
  "start itemSpring = isoDay 19813 \<and> end' itemSpring = isoDay 19814 \<and>
   setDateOffset berlin2024 (newDate (end' itemSpring)) (- 1) =
     Some (19813 * msPerDay + msPerHour) \<and>
   dragItem berlin2024 itemSpring (Some DragEnd) (- 1) itemSpring =
     Inr (itemSpring\<lparr>end' := isoDay 19813\<rparr>) \<and>
   daysDelta (0 - dragStartX dragStateSpring) (zoomLevel dragStateSpring) = - 1 \<and>
   nextItems (handleDrag berlin2024 dragStateSpring 0) =
     Inr [itemSpring\<lparr>end' := isoDay 19813\<rparr>]"
proof -
  have a: "start itemSpring = isoDay 19813" "end' itemSpring = isoDay 19814"
    by (simp_all add: itemSpring_def mkItem_def)
  have s: "setDateOffset berlin2024 (newDate (end' itemSpring)) (- 1) =
      Some (19813 * msPerDay + msPerHour)"
    by (simp add: setDateOffset_def localTime_def utcOfLocal_def timeClip_def maxTime_def
        berlin2024_def summerZone_def itemSpring_def mkItem_def isoDay_def msPerDay_def
        msPerHour_def)
  have d: "dragItem berlin2024 itemSpring (Some DragEnd) (- 1) itemSpring =
      Inr (itemSpring\<lparr>end' := isoDay 19813\<rparr>)"
    using s
    by (simp add: dragItem_def Let_def toISODate_def a)
      (simp add: isoDay_def msPerDay_def msPerHour_def)
  have n: "daysDelta (0 - dragStartX dragStateSpring) (zoomLevel dragStateSpring) = - 1"
    by (simp add: dragStateSpring_def daysDelta_samples)
  have h: "nextItems (handleDrag berlin2024 dragStateSpring 0) =
      Inr [itemSpring\<lparr>end' := isoDay 19813\<rparr>]"
    using n d by (simp add: handleDrag_def dragStateSpring_def)
  show ?thesis using a s d n h by simp
qed

text \<open>
  Claim C9, amended. On a pointer-move event during a drag whose day delta is not
  zero, \<open>dragStartX\<close> becomes the pointer position; on a move whose day delta is
  zero the state is left as it is, \<open>dragStartX\<close> and the items included, so that
  the sub-day remainder accumulates over the following events.
\<close>

theorem handleDrag_reference_x:
  assumes "draggingItem s = Some d"
  shows "nextDragStartX (handleDrag tz s x) =
           (if daysDelta (x - dragStartX s) (zoomLevel s) = 0 then dragStartX s else x) \<and>
         (daysDelta (x - dragStartX s) (zoomLevel s) = 0 \<longrightarrow>
            nextItems (handleDrag tz s x) = Inr (items s))"
  using assms by (simp add: handleDrag_def Let_def)

text \<open>The theorem for item A being moved, pointer going from pixel 100 to pixel 172
  (three days at zoom 1).\<close>

theorem handleDrag_reference_x_witness:
  "draggingItem dragStateA = Some itemA \<and>
   daysDelta (172 - dragStartX dragStateA) (zoomLevel dragStateA) = 3 \<and>
   nextDragStartX (handleDrag utcZone dragStateA 172) = 172"
proof -
  have n: "daysDelta (172 - dragStartX dragStateA) (zoomLevel dragStateA) = 3"
    by (simp add: dragStateA_facts daysDelta_samples)
  show ?thesis
    using handleDrag_reference_x [OF dragStateA_facts(1), of utcZone 172] n
    by (simp add: dragStateA_facts)
qed

text \<open>
  The reference position is not advanced on every event: with the reference at pixel
  100 and the pointer at pixel 105 the day delta is zero, \<open>handleDrag\<close> returns
  before \<open>setDragStartX\<close>, and \<open>dragStartX\<close> stays 100.
\<close>

theorem handleDrag_zero_delta_keeps_x:
  "draggingItem dragStateA = Some itemA \<and>
   daysDelta (105 - dragStartX dragStateA) (zoomLevel dragStateA) = 0 \<and>
   nextDragStartX (handleDrag utcZone dragStateA 105) = 100 \<and>
   nextItems (handleDrag utcZone dragStateA 105) = Inr (items dragStateA)"
proof -
  have n: "daysDelta (105 - dragStartX dragStateA) (zoomLevel dragStateA) = 0"
    by (simp add: dragStateA_facts daysDelta_samples)
  then show ?thesis by (simp add: handleDrag_def dragStateA_facts)
qed

text \<open>
  Claim C7 says that lane assignment, range calculation, item geometry and the drag
  step all return a value on every input and never throw. Lane assignment does
  (\<open>assignLanesToItems_total\<close>), range calculation catches what its \<open>try\<close> block
  throws, item geometry throws nothing (\<open>tryItemStyle_total\<close>), and a resize step
  returns (\<open>dragItem_resize_total\<close>); a move step does not: on the item with the
  unparseable start, \<open>start.toISOString()\<close> throws a \<open>RangeError\<close> that nothing
  catches, on any host.
\<close>

theorem handleDrag_move_malformed_throws:
  "daysDelta (24 - dragStartX dragStateBad) (zoomLevel dragStateBad) = 1 \<and>
   dragItem tz itemBad (Some DragMove) 1 itemBad = Inl RangeError \<and>
   nextItems (handleDrag tz dragStateBad 24) = Inl RangeError"
proof -
  have n: "daysDelta (24 - dragStartX dragStateBad) (zoomLevel dragStateBad) = 1"
    by (simp add: dragStateBad_def daysDelta_samples)
  have d: "dragItem tz itemBad (Some DragMove) 1 itemBad = Inl RangeError"
    by (simp add: dragItem_def itemBad_def mkItem_def toISODate_def setDateOffset_def)
  show ?thesis
    using n d by (simp add: handleDrag_def dragStateBad_def)
qed

end
